theory Spec2Isabelle
  imports Main
begin

section \<open>Byte slices and the library calls the readers use\<close>

text \<open>
  The program is the set of Go snippets of
  \<^verbatim>\<open>module02/02-readable-writable-transform/note.md\<close>: three readers
  (\<^verbatim>\<open>CounterSource\<close>, \<^verbatim>\<open>Uppercase\<close>, \<^verbatim>\<open>HeaderOnce\<close>) and the pipeline that chains
  them and hands the head reader to \<^verbatim>\<open>io.Copy\<close>.

  A Go \<^verbatim>\<open>[]byte\<close> is a list of 8-bit characters. A slice that a callee fills
  is passed in and returned updated.
\<close>

type_synonym byte = char

text \<open>
  The built-in \<^verbatim>\<open>copy(dst, src)\<close> overwrites the first
  \<open>min (len dst) (len src)\<close> bytes of \<open>dst\<close> and returns that number.
  \<open>copy_buf\<close> is the destination afterwards, \<open>copy_n\<close> the number returned.
\<close>

definition copy_buf :: "byte list \<Rightarrow> byte list \<Rightarrow> byte list" where
  "copy_buf dst src = take (length dst) src @ drop (length src) dst"

definition copy_n :: "byte list \<Rightarrow> byte list \<Rightarrow> nat" where
  "copy_n dst src = min (length dst) (length src)"

text \<open>\<^verbatim>\<open>make([]byte, n)\<close>: \<open>n\<close> zero bytes.\<close>

definition make :: "nat \<Rightarrow> byte list" where
  "make n = replicate n (CHR 0x00)"

text \<open>
  The verb \<^verbatim>\<open>%d\<close> of \<^verbatim>\<open>fmt.Sprintf\<close>: the decimal digits of an \<^verbatim>\<open>int\<close>, with a
  leading minus sign for a negative one.
\<close>

fun digits :: "nat \<Rightarrow> string" where
  "digits n = (if n < 10 then [char_of (48 + n)]
               else digits (n div 10) @ [char_of (48 + n mod 10)])"

declare digits.simps [simp del]

definition fmt_d :: "int \<Rightarrow> string" where
  "fmt_d k = (if k < 0 then CHR ''-'' # digits (nat (- k)) else digits (nat k))"

text \<open>\<^verbatim>\<open>fmt.Sprintf("value-%d\n", i)\<close>, the record that one call produces.\<close>

definition Sprintf_value :: "int \<Rightarrow> byte list" where
  "Sprintf_value k = ''value-'' @ fmt_d k @ [CHR 0x0A]"

text \<open>
  \<^verbatim>\<open>bytes.ToUpper\<close> on ASCII input only: each of the bytes \<^verbatim>\<open>a\<close> to \<^verbatim>\<open>z\<close> moves
  down by 32, every other byte stays, and the length is kept. On input with a
  byte of 128 or above the library decodes UTF-8 instead and may change the
  length; \<open>ToUpper\<close> says nothing about such input. \<open>Uppercase_input_ascii\<close> below
  shows that no reader of this program ever hands such a byte to it.
\<close>

definition upper_byte :: "byte \<Rightarrow> byte" where
  "upper_byte c = (if 97 \<le> (of_char c :: nat) \<and> (of_char c :: nat) \<le> 122
                   then char_of ((of_char c :: nat) - 32) else c)"

definition ToUpper :: "byte list \<Rightarrow> byte list" where
  "ToUpper s = map upper_byte s"

section \<open>The readers\<close>

text \<open>
  The error values: \<^verbatim>\<open>io.EOF\<close>, the only one a reader of this program returns, and
  the two that the copy loop reports about a sink: \<^verbatim>\<open>io.ErrShortWrite\<close>, when the
  sink takes fewer bytes than it was given, and the library's \<^verbatim>\<open>errInvalidWrite\<close>,
  when it claims more. \<^verbatim>\<open>nil\<close> is \<open>None\<close>.
\<close>

datatype error = EOF | ErrShortWrite | errInvalidWrite

text \<open>
  A reader value is the state of one chain of wrapped readers: the struct
  fields of each stage, the wrapped reader \<^verbatim>\<open>r\<close> being the state of the stage below.
  \<^item> \<^verbatim>\<open>CounterSource{i, max}\<close>: two Go \<^verbatim>\<open>int\<close>s. \<open>i\<close> is only incremented while
    \<open>i < max\<close>, so it never passes \<open>max\<close> and cannot wrap around; the fields are
    modelled as \<open>int\<close>.
  \<^item> \<^verbatim>\<open>Uppercase{r}\<close>.
  \<^item> \<^verbatim>\<open>HeaderOnce{r, done}\<close>.
\<close>

datatype reader =
    CounterSource int int
  | Uppercase reader
  | HeaderOnce reader bool

text \<open>
  What a call \<^verbatim>\<open>Read(p)\<close> does: it panics (a slice expression out of range), or
  it returns with the reader's new state, the contents of \<open>p\<close> afterwards, the
  count \<open>n\<close> and the error.
\<close>

datatype outcome = Panic | Ret reader "byte list" nat "error option"

text \<open>
  \<^verbatim>\<open>
  func (c *CounterSource) Read(p []byte) (int, error) {
      if c.i >= c.max { return 0, io.EOF }
      n := copy(p, fmt.Sprintf("value-%d\n", c.i))
      c.i++
      return n, nil
  }
  func (u *Uppercase) Read(p []byte) (int, error) {
      buf := make([]byte, 4096)
      n, err := u.r.Read(buf)
      if n > 0 { copy(p, bytes.ToUpper(buf[:n])) }
      return n, err
  }
  func (h *HeaderOnce) Read(p []byte) (int, error) {
      if !h.done { h.done = true; return copy(p, "id,name\n"), nil }
      return h.r.Read(p)
  }
  \<close>
  The slice expression \<^verbatim>\<open>buf[:n]\<close> panics when \<open>n\<close> exceeds the 4096 bytes of
  \<open>buf\<close>.
\<close>

definition header :: "byte list" where
  "header = ''id,name'' @ [CHR 0x0A]"

fun Read :: "reader \<Rightarrow> byte list \<Rightarrow> outcome" where
  "Read (CounterSource i mx) p =
     (if i \<ge> mx then Ret (CounterSource i mx) p 0 (Some EOF)
      else Ret (CounterSource (i + 1) mx)
               (copy_buf p (Sprintf_value i)) (copy_n p (Sprintf_value i)) None)"
| "Read (Uppercase r) p =
     (case Read r (make 4096) of
        Panic \<Rightarrow> Panic
      | Ret r' buf n err \<Rightarrow>
          if n > 0 then
            (if n > length buf then Panic
             else Ret (Uppercase r') (copy_buf p (ToUpper (take n buf))) n err)
          else Ret (Uppercase r') p n err)"
| "Read (HeaderOnce r done) p =
     (if \<not> done then Ret (HeaderOnce r True) (copy_buf p header) (copy_n p header) None
      else (case Read r p of
              Panic \<Rightarrow> Panic
            | Ret r' p' n err \<Rightarrow> Ret (HeaderOnce r' True) p' n err))"

section \<open>A call without an error makes progress\<close>

text \<open>
  How many calls a chain can still answer with a \<^verbatim>\<open>nil\<close> error: the records
  the counter has left, and one call for a header not yet emitted.
\<close>

fun remaining :: "reader \<Rightarrow> nat" where
  "remaining (CounterSource i mx) = nat (mx - i)"
| "remaining (Uppercase r) = remaining r"
| "remaining (HeaderOnce r done) = remaining r + (if done then 0 else 1)"

lemma Read_progress:
  "Read r p = Ret r' p' n None \<Longrightarrow> remaining r' < remaining r"
proof (induction r arbitrary: p r' p' n)
  case (CounterSource i mx)
  then show ?case by (auto split: if_splits)
next
  case (Uppercase r)
  then show ?case by (fastforce split: outcome.splits if_splits)
next
  case (HeaderOnce r d)
  then show ?case by (fastforce split: outcome.splits if_splits)
qed

section \<open>The sinks\<close>

text \<open>
  ``Any type implementing \<^verbatim>\<open>Write([]byte)\<close> is a sink.'' The sink of the pipeline is
  a file (\<^verbatim>\<open>os.Create("out.csv")\<close>, \<^verbatim>\<open>os.Stdout\<close>), which collects what is written
  to it. A file is the bytes written to it so far: its \<^verbatim>\<open>Write\<close> appends its
  whole argument and returns its length and \<^verbatim>\<open>nil\<close>.
\<close>

datatype writer = File "byte list"

text \<open>\<^verbatim>\<open>w.Write(p)\<close>: the sink afterwards, the count and the error.\<close>

fun Write :: "writer \<Rightarrow> byte list \<Rightarrow> writer \<times> nat \<times> error option" where
  "Write (File d) p = (File (d @ p), length p, None)"

section \<open>The callers: \<^verbatim>\<open>io.Copy\<close> and a caller that chooses its buffer sizes\<close>

text \<open>
  The pipeline is driven by \<^verbatim>\<open>io.Copy(out, withHeader)\<close>, a call into the Go
  library. \<^verbatim>\<open>io.Copy\<close> first hands the copy over to the source's \<^verbatim>\<open>WriteTo\<close> or to
  the sink's \<^verbatim>\<open>ReadFrom\<close> when there is one. The readers of this program have no
  \<^verbatim>\<open>WriteTo\<close>, and a file's \<^verbatim>\<open>ReadFrom\<close> comes back to the generic loop for a
  source that is not itself a file or a socket. So for these readers and a file
  as the sink, the only sink modelled here, the copy is the library's generic
  loop (a sink with a \<^verbatim>\<open>ReadFrom\<close> of its own, such as a \<^verbatim>\<open>bufio.Writer\<close>, is
  copied to differently and is not modelled):
  \<^verbatim>\<open>
  buf := make([]byte, 32*1024)
  for {
      nr, er := src.Read(buf)
      if nr > 0 {
          nw, ew := dst.Write(buf[0:nr])
          if nw < 0 || nr < nw {
              nw = 0
              if ew == nil { ew = errInvalidWrite }
          }
          written += int64(nw)
          if ew != nil { err = ew; break }
          if nr != nw { err = ErrShortWrite; break }
      }
      if er != nil {
          if er != EOF { err = er }
          break
      }
  }
  return written, err
  \<close>
  \<^verbatim>\<open>buf[0:nr]\<close> panics when \<open>nr\<close> exceeds the buffer. The counts are natural
  numbers here, so \<open>nw < 0\<close> has no case. The buffer is allocated once and
  reused; \<open>copyBuffer\<close> takes it as an argument, so that its size can be chosen.
\<close>

datatype copied = CopyPanic | Copied writer nat "error option"

function copyBuffer :: "reader \<Rightarrow> byte list \<Rightarrow> writer \<Rightarrow> nat \<Rightarrow> copied" where
  "copyBuffer src buf dst written =
     (case Read src buf of
        Panic \<Rightarrow> CopyPanic
      | Ret src' buf' nr er \<Rightarrow>
          if nr > 0 then
            (if nr > length buf' then CopyPanic
             else
               (case Write dst (take nr buf') of
                  (dst', nw0, ew0) \<Rightarrow>
                    (let nw = (if nr < nw0 then 0 else nw0);
                         ew = (if nr < nw0 \<and> ew0 = None then Some errInvalidWrite else ew0)
                     in if ew \<noteq> None then Copied dst' (written + nw) ew
                        else if nr \<noteq> nw then Copied dst' (written + nw) (Some ErrShortWrite)
                        else
                          (case er of
                             Some e \<Rightarrow>
                               Copied dst' (written + nw) (if e \<noteq> EOF then Some e else None)
                           | None \<Rightarrow> copyBuffer src' buf' dst' (written + nw)))))
          else
            (case er of
               Some e \<Rightarrow> Copied dst written (if e \<noteq> EOF then Some e else None)
             | None \<Rightarrow> copyBuffer src' buf' dst written))"
  by pat_completeness auto
termination
  by (relation "measure (\<lambda>(src, buf, dst, written). remaining src)")
     (auto dest: Read_progress)

declare copyBuffer.simps [simp del]

definition io_Copy :: "writer \<Rightarrow> reader \<Rightarrow> copied" where
  "io_Copy dst src = copyBuffer src (make (32 * 1024)) dst 0"

text \<open>
  A caller that chooses the size of the buffer for every call: call number \<open>k\<close>
  passes a fresh buffer of \<open>sz k\<close> bytes and keeps the chunk \<^verbatim>\<open>p[:n]\<close>, up to and
  including the call that returns \<^verbatim>\<open>io.EOF\<close>. \<open>None\<close> is a panic (in the reader, or
  in \<^verbatim>\<open>p[:n]\<close> when the reader reports more bytes than the buffer holds).
\<close>

function read_calls :: "reader \<Rightarrow> (nat \<Rightarrow> nat) \<Rightarrow> nat \<Rightarrow> byte list list option" where
  "read_calls r sz k =
     (case Read r (make (sz k)) of
        Panic \<Rightarrow> None
      | Ret r' p n er \<Rightarrow>
          if n > length p then None
          else (case er of
                  Some e \<Rightarrow> Some [take n p]
                | None \<Rightarrow> (case read_calls r' sz (Suc k) of
                             None \<Rightarrow> None
                           | Some cs \<Rightarrow> Some (take n p # cs))))"
  by pat_completeness auto
termination
  by (relation "measure (\<lambda>(r, sz, k). remaining r)")
     (auto dest: Read_progress)

declare read_calls.simps [simp del]

text \<open>The same buffer size at every call.\<close>

definition every :: "nat \<Rightarrow> nat \<Rightarrow> nat" where
  "every b k = b"

text \<open>
  Successive calls with the given buffers, whatever they return: the list of
  their outcomes. A panic ends the program.
\<close>

fun reads :: "reader \<Rightarrow> byte list list \<Rightarrow> outcome list" where
  "reads r [] = []"
| "reads r (q # qs) =
     (case Read r q of
        Panic \<Rightarrow> [Panic]
      | Ret r' q' n er \<Rightarrow> Ret r' q' n er # reads r' qs)"

section \<open>What the claims speak about\<close>

text \<open>
  The byte sequence a \<^verbatim>\<open>CounterSource\<close> with fields \<open>i\<close> and \<open>max\<close> is constructed
  to produce: the records \<open>i\<close> to \<open>max - 1\<close>, in order.
\<close>

definition produces :: "int \<Rightarrow> int \<Rightarrow> byte list" where
  "produces i mx = concat (map Sprintf_value [i..mx - 1])"

text \<open>The field \<^verbatim>\<open>r\<close> of a wrapping reader.\<close>

fun upstream :: "reader \<Rightarrow> reader" where
  "upstream (HeaderOnce r done) = r"
| "upstream (Uppercase r) = r"
| "upstream (CounterSource i mx) = CounterSource i mx"

text \<open>
  What the caller of a \<^verbatim>\<open>HeaderOnce\<close> whose header is out sees when the wrapped
  reader's \<^verbatim>\<open>Read\<close> has the given outcome: the same buffer, count and error.
\<close>

fun delegated :: "outcome \<Rightarrow> outcome" where
  "delegated Panic = Panic"
| "delegated (Ret r p n err) = Ret (HeaderOnce r True) p n err"

text \<open>Every byte is below 128.\<close>

definition ascii :: "byte list \<Rightarrow> bool" where
  "ascii s = list_all (\<lambda>c. (of_char c :: nat) < 128) s"


section \<open>Basic facts\<close>

lemma length_copy_buf [simp]: "length (copy_buf p s) = length p"
  by (simp add: copy_buf_def)

lemma take_copy_buf: "take (copy_n p s) (copy_buf p s) = take (length p) s"
  by (simp add: copy_buf_def copy_n_def min_def)

lemma take_copy_buf_whole:
  "n = length s \<Longrightarrow> n \<le> length p \<Longrightarrow> take n (copy_buf p s) = s"
  by (simp add: copy_buf_def)

lemma copy_n_le [simp]: "copy_n p s \<le> length p"
  by (simp add: copy_n_def)

lemma length_make [simp]: "length (make n) = n"
  by (simp add: make_def)

lemma length_ToUpper [simp]: "length (ToUpper s) = length s"
  by (simp add: ToUpper_def)

lemma digit_chars:
  "char_of (48::nat) = CHR ''0''" "char_of (49::nat) = CHR ''1''"
  "char_of (50::nat) = CHR ''2''" "char_of (51::nat) = CHR ''3''"
  "char_of (52::nat) = CHR ''4''" "char_of (53::nat) = CHR ''5''"
  "char_of (54::nat) = CHR ''6''" "char_of (55::nat) = CHR ''7''"
  "char_of (56::nat) = CHR ''8''" "char_of (57::nat) = CHR ''9''"
  by code_simp+

lemma Sprintf_value_0: "Sprintf_value 0 = ''value-0\<newline>''"
  by (simp add: Sprintf_value_def fmt_d_def digits.simps digit_chars)

lemma Sprintf_value_1: "Sprintf_value 1 = ''value-1\<newline>''"
  by (simp add: Sprintf_value_def fmt_d_def digits.simps digit_chars)

lemma Sprintf_value_2: "Sprintf_value 2 = ''value-2\<newline>''"
  by (simp add: Sprintf_value_def fmt_d_def digits.simps digit_chars)

lemma ToUpper_records:
  "ToUpper ''value-0\<newline>'' = ''VALUE-0\<newline>''"
  "ToUpper ''value-1\<newline>'' = ''VALUE-1\<newline>''"
  "ToUpper ''value-2\<newline>'' = ''VALUE-2\<newline>''"
  by code_simp+

text \<open>
  No \<^verbatim>\<open>Read\<close> panics: a call returns, leaves the caller's slice at its length,
  and reports at most \<open>max (len p) 4096\<close> bytes. In particular the count that
  \<^verbatim>\<open>Uppercase.Read\<close> gets for its 4096-byte buffer is within \<^verbatim>\<open>buf[:n]\<close>.
\<close>

lemma Read_returns:
  "\<exists>r' p' n e. Read r p = Ret r' p' n e \<and> length p' = length p \<and> n \<le> max (length p) 4096"
proof (induction r arbitrary: p)
  case (CounterSource i mx)
  show ?case by (simp add: le_max_iff_disj)
next
  case (Uppercase r)
  from Uppercase.IH [of "make 4096"] obtain r' buf n e where
    "Read r (make 4096) = Ret r' buf n e" "length buf = 4096" "n \<le> 4096"
    by auto
  then show ?case by (simp add: le_max_iff_disj)
next
  case (HeaderOnce r d)
  from HeaderOnce.IH [of p] obtain r' p' n e where
    "Read r p = Ret r' p' n e" "length p' = length p" "n \<le> max (length p) 4096"
    by auto
  then show ?case by (simp add: le_max_iff_disj)
qed

lemma Read_no_panic: "Read r p \<noteq> Panic"
  using Read_returns [of r p] by auto

lemma Read_length: "Read r p = Ret r' p' n e \<Longrightarrow> length p' = length p"
  using Read_returns [of r p] by auto

text \<open>Once a reader has returned \<^verbatim>\<open>io.EOF\<close>, a further call changes nothing.\<close>

lemma Read_eof_fixed:
  "Read r p = Ret r' p' n (Some EOF) \<Longrightarrow> Read r' q = Ret r' q 0 (Some EOF)"
proof (induction r arbitrary: p p' n r' q)
  case (CounterSource i mx)
  then show ?case by (auto split: if_splits)
next
  case (Uppercase r)
  then obtain r0 buf where up: "Read r (make 4096) = Ret r0 buf n (Some EOF)"
    and r': "r' = Uppercase r0"
    by (auto split: outcome.splits if_splits)
  from Uppercase.IH [OF up] have "Read r0 (make 4096) = Ret r0 (make 4096) 0 (Some EOF)" .
  with r' show ?case by simp
next
  case (HeaderOnce r d)
  then obtain r0 where up: "Read r p = Ret r0 p' n (Some EOF)"
    and r': "r' = HeaderOnce r0 True"
    by (auto split: outcome.splits if_splits)
  from HeaderOnce.IH [OF up] have "Read r0 q = Ret r0 q 0 (Some EOF)" .
  with r' show ?case by simp
qed

text \<open>
  The chunks a \<^verbatim>\<open>CounterSource\<close> hands to a caller: call \<open>n\<close> gets the first
  \<open>sz (k + n)\<close> bytes of record \<open>i + n\<close>, and the call after the last record gets
  nothing and \<^verbatim>\<open>io.EOF\<close>.
\<close>

lemma upt_shift: "[0..<Suc m] = 0 # map Suc [0..<m]"
  by (simp add: upt_conv_Cons map_Suc_upt del: upt_Suc)

lemma read_calls_CounterSource:
  "read_calls (CounterSource i mx) sz k =
     Some (map (\<lambda>n. take (sz (k + n)) (Sprintf_value (i + int n))) [0..<nat (mx - i)] @ [[]])"
proof (induction "nat (mx - i)" arbitrary: i k)
  case 0
  then have "mx \<le> i" by simp
  then show ?case by (simp add: read_calls.simps)
next
  case (Suc m)
  then have lt: "i < mx" and m: "m = nat (mx - (i + 1))" by linarith+
  have up: "[0..<nat (mx - i)] = 0 # map Suc [0..<nat (mx - (i + 1))]"
    using Suc.hyps(2) [symmetric] m upt_shift [of m] by simp
  have ih: "read_calls (CounterSource (i + 1) mx) sz (Suc k) =
     Some (map (\<lambda>n. take (sz (Suc k + n)) (Sprintf_value (i + 1 + int n)))
             [0..<nat (mx - (i + 1))] @ [[]])"
    using Suc.hyps(1) [OF m] .
  have "read_calls (CounterSource i mx) sz k =
      Some (take (sz k) (Sprintf_value i) #
        map (\<lambda>n. take (sz (Suc k + n)) (Sprintf_value (i + 1 + int n)))
          [0..<nat (mx - (i + 1))] @ [[]])"
    using lt copy_n_le [of "make (sz k)" "Sprintf_value i"]
    by (subst read_calls.simps) (simp add: ih take_copy_buf del: copy_n_le)
  also have "\<dots> = Some (map (\<lambda>n. take (sz (k + n)) (Sprintf_value (i + int n)))
                         [0..<nat (mx - i)] @ [[]])"
    unfolding up by (simp add: comp_def add.assoc)
  finally show ?case .
qed

lemma produces_rec: "i < mx \<Longrightarrow> produces i mx = Sprintf_value i @ produces (i + 1) mx"
  by (simp add: produces_def upto_rec1)

lemma produces_empty: "mx \<le> i \<Longrightarrow> produces i mx = []"
  by (simp add: produces_def)

lemma produces_0_3: "produces 0 3 = ''value-0\<newline>value-1\<newline>value-2\<newline>''"
  by (simp add: produces_def upto_rec1 Sprintf_value_0 Sprintf_value_1 Sprintf_value_2)

lemma concat_records:
  "concat (map (\<lambda>n. Sprintf_value (i + int n)) [0..<nat (mx - i)]) = produces i mx"
proof (induction "nat (mx - i)" arbitrary: i)
  case 0
  then show ?case by (simp add: produces_empty)
next
  case (Suc m)
  then have lt: "i < mx" and m: "m = nat (mx - (i + 1))" by linarith+
  have up: "[0..<nat (mx - i)] = 0 # map Suc [0..<nat (mx - (i + 1))]"
    using Suc.hyps(2) [symmetric] m upt_shift [of m] by simp
  show ?case
    unfolding up using Suc.hyps(1) [OF m] lt
    by (simp add: comp_def produces_rec add.assoc)
qed

text \<open>A \<^verbatim>\<open>HeaderOnce\<close> whose header is out only passes calls on.\<close>

lemma Read_HeaderOnce_done: "Read (HeaderOnce r True) q = delegated (Read r q)"
  by (simp split: outcome.splits)

lemma reads_HeaderOnce_done: "reads (HeaderOnce r True) qs = map delegated (reads r qs)"
proof (induction qs arbitrary: r)
  case Nil
  show ?case by simp
next
  case (Cons q qs)
  show ?case
  proof (cases "Read r q")
    case Panic
    then show ?thesis by simp
  next
    case (Ret r' q' n e)
    with Cons.IH [of r'] show ?thesis by simp
  qed
qed

lemma read_calls_HeaderOnce_done: "read_calls (HeaderOnce r True) sz k = read_calls r sz k"
proof (induction r sz k rule: read_calls.induct)
  case (1 r sz k)
  show ?case
  proof (cases "Read r (make (sz k))")
    case Panic
    then show ?thesis by (simp add: read_calls.simps [of _ sz k])
  next
    case (Ret r' p n er)
    show ?thesis
    proof (cases "n > length p")
      case True
      with Ret show ?thesis by (simp add: read_calls.simps [of _ sz k])
    next
      case False
      show ?thesis
      proof (cases er)
        case None
        with "1.IH" [OF Ret False None] Ret False show ?thesis
          by (simp add: read_calls.simps [of _ sz k])
      next
        case (Some e)
        with Ret False show ?thesis by (simp add: read_calls.simps [of _ sz k])
      qed
    qed
  qed
qed

text \<open>
  The first call of a \<^verbatim>\<open>HeaderOnce\<close> gives the first \<open>sz k\<close> bytes of the header,
  whatever the size; the chunks after it are those of the wrapped reader.
\<close>

lemma HeaderOnce_first_chunk:
  "read_calls (HeaderOnce r False) sz k
     = map_option ((#) (take (sz k) header)) (read_calls r sz (Suc k))"
  using copy_n_le [of "make (sz k)" header]
  by (subst read_calls.simps)
     (simp add: read_calls_HeaderOnce_done take_copy_buf split: option.splits del: copy_n_le)


text \<open>
  \<^verbatim>\<open>Uppercase.Read\<close> in terms of the read of the wrapped reader: the count and the
  error are the wrapped reader's, and the caller's slice gets the upper-cased
  chunk, as far as it fits.
\<close>

lemma Read_Uppercase:
  assumes up: "Read r (make 4096) = Ret r' buf n e"
  shows "Read (Uppercase r) p
    = Ret (Uppercase r') (if n > 0 then copy_buf p (ToUpper (take n buf)) else p) n e"
proof -
  from Read_returns [of r "make 4096"] up have "n \<le> length buf" by auto
  with up show ?thesis by simp
qed

subsection \<open>Only ASCII reaches \<^verbatim>\<open>bytes.ToUpper\<close>\<close>

lemma ascii_append [simp]: "ascii (xs @ ys) \<longleftrightarrow> ascii xs \<and> ascii ys"
  by (simp add: ascii_def)

lemma ascii_take: "ascii xs \<Longrightarrow> ascii (take n xs)"
  by (auto simp: ascii_def list_all_iff dest: in_set_takeD)

lemma ascii_digits: "ascii (digits n)"
proof (induction n rule: digits.induct)
  case (1 n)
  have d: "(of_char (char_of (48 + k :: nat)) :: nat) < 128" if "k < 10" for k
    using that by (simp add: of_char_of)
  show ?case
  proof (cases "n < 10")
    case True
    then show ?thesis by (subst digits.simps) (simp add: ascii_def d)
  next
    case False
    have "n mod 10 < 10" by simp
    with False "1.IH" show ?thesis
      by (subst digits.simps) (simp add: d, simp add: ascii_def d)
  qed
qed

lemma ascii_Sprintf_value: "ascii (Sprintf_value k)"
  using ascii_digits by (simp add: Sprintf_value_def fmt_d_def, simp add: ascii_def)

lemma ascii_header: "ascii header"
  by (simp add: header_def ascii_def)

lemma ascii_ToUpper: "ascii s \<Longrightarrow> ascii (ToUpper s)"
  by (auto simp: ascii_def ToUpper_def list_all_iff upper_byte_def of_char_of)

lemma take_le_copy_buf:
  "k \<le> length s \<Longrightarrow> k \<le> length p \<Longrightarrow> take k (copy_buf p s) = take k s"
  by (simp add: copy_buf_def)

text \<open>The bytes a call puts into the caller's slice are ASCII.\<close>

lemma Read_writes_ascii:
  "Read r p = Ret r' p' n e \<Longrightarrow> ascii (take (min n (length p)) p')"
proof (induction r arbitrary: p r' p' n e)
  case (CounterSource i mx)
  show ?case
  proof (cases "mx \<le> i")
    case True
    with CounterSource show ?thesis by (auto simp: ascii_def)
  next
    case False
    with CounterSource have p': "p' = copy_buf p (Sprintf_value i)"
      and n: "n = copy_n p (Sprintf_value i)" by auto
    have "take (min n (length p)) p' = take (min n (length p)) (Sprintf_value i)"
      unfolding p' n by (rule take_le_copy_buf) (simp_all add: copy_n_def)
    then show ?thesis
      by (simp add: ascii_take ascii_Sprintf_value)
  qed
next
  case (Uppercase r)
  obtain r0 buf m e0 where up: "Read r (make 4096) = Ret r0 buf m e0"
    and len: "length buf = 4096" and m: "m \<le> 4096"
    using Read_returns [of r "make 4096"] by auto
  from Uppercase.IH [OF up] m len have "ascii (take m buf)" by (simp add: min_def)
  then have up_ascii: "ascii (take k (ToUpper (take m buf)))" for k
    by (simp add: ascii_ToUpper ascii_take)
  show ?case
  proof (cases "m > 0")
    case False
    with Uppercase.prems up show ?thesis by (auto simp: ascii_def)
  next
    case True
    with Uppercase.prems up len m have p': "p' = copy_buf p (ToUpper (take m buf))"
      and n: "n = m" by auto
    have "take (min n (length p)) p' = take (min n (length p)) (ToUpper (take m buf))"
      unfolding p' n using len m by (intro take_le_copy_buf) simp_all
    with up_ascii show ?thesis by simp
  qed
next
  case (HeaderOnce r d)
  show ?case
  proof (cases d)
    case False
    with HeaderOnce.prems have p': "p' = copy_buf p header" and n: "n = copy_n p header"
      by auto
    have "take (min n (length p)) p' = take (min n (length p)) header"
      unfolding p' n by (rule take_le_copy_buf) (simp_all add: copy_n_def)
    then show ?thesis
      by (simp add: ascii_take ascii_header)
  next
    case True
    with HeaderOnce.prems obtain r0 where "Read r p = Ret r0 p' n e"
      by (auto split: outcome.splits)
    from HeaderOnce.IH [OF this] show ?thesis .
  qed
qed

text \<open>So the argument \<^verbatim>\<open>buf[:n]\<close> of \<^verbatim>\<open>bytes.ToUpper\<close> is ASCII in every call.\<close>

lemma Uppercase_input_ascii:
  "Read r (make 4096) = Ret r' buf n e \<Longrightarrow> ascii (take n buf)"
  using Read_writes_ascii [of r "make 4096" r' buf n e] Read_returns [of r "make 4096"]
  by (simp add: min_def)

subsection \<open>The copy loop\<close>

lemma Write_result: "snd (Write w p) = (length p, None)"
  by (cases w) simp_all

lemma copyBuffer_step:
  "Read src buf = Ret src' buf' nr None \<Longrightarrow> 0 < nr \<Longrightarrow> nr \<le> length buf' \<Longrightarrow>
     copyBuffer src buf dst n = copyBuffer src' buf' (fst (Write dst (take nr buf'))) (n + nr)"
  using Write_result [of dst "take nr buf'"]
  by (subst copyBuffer.simps) (simp add: prod_eq_iff split: prod.splits)

lemma copyBuffer_eof:
  "Read src buf = Ret src' buf' 0 (Some EOF) \<Longrightarrow> copyBuffer src buf dst n = Copied dst n None"
  by (subst copyBuffer.simps) simp

text \<open>
  The pipeline of the notes, with three records: the loop makes four writes, the
  header and the three records in upper case, for every buffer that holds the
  header.
\<close>

lemma Read_Uppercase_CounterSource:
  "i < mx \<Longrightarrow> length (Sprintf_value i) \<le> 4096 \<Longrightarrow>
     Read (Uppercase (CounterSource i mx)) p
       = Ret (Uppercase (CounterSource (i + 1) mx)) (copy_buf p (ToUpper (Sprintf_value i)))
             (length (Sprintf_value i)) None"
  by (simp add: copy_n_def take_copy_buf_whole Sprintf_value_def)

lemma copyBuffer_pipeline_writes:
  assumes len: "length header \<le> length buf"
  shows "copyBuffer (HeaderOnce (Uppercase (CounterSource 0 3)) False) buf dst n
     = Copied (foldl (\<lambda>w c. fst (Write w c)) dst
                 [''id,name\<newline>'', ''VALUE-0\<newline>'', ''VALUE-1\<newline>'', ''VALUE-2\<newline>''])
              (n + 32) None"
proof -
  from len have len8: "8 \<le> length buf" by (simp add: header_def)
  note rec = Sprintf_value_0 Sprintf_value_1 Sprintf_value_2
  have r3: "copyBuffer (HeaderOnce (Uppercase (CounterSource 3 3)) True) b w m = Copied w m None"
    for b w m
    by (rule copyBuffer_eof [where src' = "HeaderOnce (Uppercase (CounterSource 3 3)) True"
          and buf' = b]) simp
  have r2: "copyBuffer (HeaderOnce (Uppercase (CounterSource 2 3)) True) b w m
      = Copied (fst (Write w ''VALUE-2\<newline>'')) (m + 8) None" if "8 \<le> length b" for b w m
    using that Read_Uppercase_CounterSource [of 2 3 b]
    by (subst copyBuffer_step [where src' = "HeaderOnce (Uppercase (CounterSource 3 3)) True"
          and buf' = "copy_buf b ''VALUE-2\<newline>''" and nr = 8])
       (simp_all add: rec ToUpper_records take_copy_buf_whole r3)
  have r1: "copyBuffer (HeaderOnce (Uppercase (CounterSource 1 3)) True) b w m
      = Copied (fst (Write (fst (Write w ''VALUE-1\<newline>'')) ''VALUE-2\<newline>'')) (m + 16) None"
    if "8 \<le> length b" for b w m
    using that Read_Uppercase_CounterSource [of 1 3 b]
    by (subst copyBuffer_step [where src' = "HeaderOnce (Uppercase (CounterSource 2 3)) True"
          and buf' = "copy_buf b ''VALUE-1\<newline>''" and nr = 8])
       (simp_all add: rec ToUpper_records take_copy_buf_whole r2)
  have r0: "copyBuffer (HeaderOnce (Uppercase (CounterSource 0 3)) True) b w m
      = Copied (fst (Write (fst (Write (fst (Write w ''VALUE-0\<newline>'')) ''VALUE-1\<newline>''))
                  ''VALUE-2\<newline>'')) (m + 24) None"
    if "8 \<le> length b" for b w m
    using that Read_Uppercase_CounterSource [of 0 3 b]
    by (subst copyBuffer_step [where src' = "HeaderOnce (Uppercase (CounterSource 1 3)) True"
          and buf' = "copy_buf b ''VALUE-0\<newline>''" and nr = 8])
       (simp_all add: rec ToUpper_records take_copy_buf_whole r1)
  show ?thesis
    using len8
    by (subst copyBuffer_step [where src' = "HeaderOnce (Uppercase (CounterSource 0 3)) True"
          and buf' = "copy_buf buf header" and nr = 8])
       (simp_all add: header_def copy_n_def take_copy_buf_whole r0)
qed

section \<open>The claims\<close>

text \<open>
  C1. The pipeline \<^verbatim>\<open>HeaderOnce{r: Uppercase{r: CounterSource{max: 3}}}\<close>, whose
  root produces \<^verbatim>\<open>"value-0\nvalue-1\nvalue-2\n"\<close>, driven by the copy loop into a
  collecting sink until end-of-stream, leaves exactly
  \<^verbatim>\<open>"id,name\nVALUE-0\nVALUE-1\nVALUE-2\n"\<close> in the sink: the header first, then
  each record in upper case, in order; 32 bytes are written and the loop returns
  \<^verbatim>\<open>nil\<close>. This holds for every copy buffer that holds the eight bytes of the
  header, so for the 32 KiB buffer of \<^verbatim>\<open>io.Copy\<close>.
\<close>

theorem pipeline_end_to_end:
  "length header \<le> length buf \<Longrightarrow>
     produces 0 3 = ''value-0\<newline>value-1\<newline>value-2\<newline>''
   \<and> copyBuffer (HeaderOnce (Uppercase (CounterSource 0 3)) False) buf (File []) 0
       = Copied (File ''id,name\<newline>VALUE-0\<newline>VALUE-1\<newline>VALUE-2\<newline>'') 32 None"
  by (simp add: produces_0_3 copyBuffer_pipeline_writes)

theorem pipeline_end_to_end_witness:
  "io_Copy (File []) (HeaderOnce (Uppercase (CounterSource 0 3)) False)
     = Copied (File ''id,name\<newline>VALUE-0\<newline>VALUE-1\<newline>VALUE-2\<newline>'') 32 None"
proof -
  have "length header \<le> length (make (32 * 1024))"
    by (simp add: header_def)
  from pipeline_end_to_end [OF this] show ?thesis
    by (simp add: io_Copy_def)
qed

text \<open>
  C2, as amended. For a \<^verbatim>\<open>CounterSource\<close> and every sequence of caller buffer sizes
  in which each buffer is at least as long as the record that its call delivers,
  the chunks returned up to the call that signals end-of-stream, concatenated,
  are exactly the byte sequence the source was constructed to produce.

  As stated, for every size of at least 1, the claim fails: \<^verbatim>\<open>Read\<close> copies what
  fits of the record into the buffer and moves on to the next record, so the
  rest of the record is lost. With one-byte buffers a source of one record
  yields \<^verbatim>\<open>"v"\<close> and not \<^verbatim>\<open>"value-0\n"\<close>.
\<close>

theorem CounterSource_reproduces:
  assumes fits: "\<forall>n < nat (mx - i). length (Sprintf_value (i + int n)) \<le> sz (k + n)"
  shows "map_option concat (read_calls (CounterSource i mx) sz k) = Some (produces i mx)"
proof -
  have "map (\<lambda>n. take (sz (k + n)) (Sprintf_value (i + int n))) [0..<nat (mx - i)]
      = map (\<lambda>n. Sprintf_value (i + int n)) [0..<nat (mx - i)]"
    using fits by simp
  then have "concat (map (\<lambda>n. take (sz (k + n)) (Sprintf_value (i + int n))) [0..<nat (mx - i)])
      = produces i mx"
    by (simp only: concat_records)
  then show ?thesis
    by (simp add: read_calls_CounterSource)
qed

theorem CounterSource_reproduces_witness:
  "map_option concat (read_calls (CounterSource 0 3) (every 8) 0)
     = Some ''value-0\<newline>value-1\<newline>value-2\<newline>''"
proof -
  note rec = Sprintf_value_0 Sprintf_value_1 Sprintf_value_2
  have fits: "\<forall>n < nat (3 - 0). length (Sprintf_value (0 + int n)) \<le> every 8 (0 + n)"
    by (simp add: every_def numeral_3_eq_3 less_Suc_eq rec)
  from CounterSource_reproduces [OF fits] show ?thesis
    by (simp add: produces_0_3)
qed

theorem CounterSource_short_buffer_loses_bytes:
  "map_option concat (read_calls (CounterSource 0 1) (every 1) 0) \<noteq> Some (produces 0 1)"
  by (simp add: read_calls_CounterSource produces_def upto_rec1 every_def Sprintf_value_0)

text \<open>
  C3, as amended. For \<^verbatim>\<open>HeaderOnce\<close>, with its prologue \<^verbatim>\<open>"id,name\n"\<close> of length
  \<open>L = 8\<close>: for every caller whose first buffer holds at least \<open>L\<close> bytes, the
  first chunk returned is exactly the \<open>L\<close> prologue bytes, the wrapped reader is
  not touched by that call, and all later chunks are those of the wrapped
  reader; so the concatenation begins with exactly the prologue, before any
  upstream byte.

  As stated, for every buffer size, the claim fails: the reader keeps no offset
  into the prologue, only the flag \<^verbatim>\<open>done\<close>, which the first call sets. A first
  buffer shorter than \<open>L\<close> gets the first bytes of the prologue and the rest is
  never emitted. With buffers of \<open>L - 1 = 7\<close> bytes the output begins
  \<^verbatim>\<open>"id,namev"\<close>.
\<close>

theorem HeaderOnce_prologue_first:
  "length header \<le> sz k \<Longrightarrow>
     read_calls (HeaderOnce r False) sz k = map_option ((#) header) (read_calls r sz (Suc k))"
  by (simp add: HeaderOnce_first_chunk)

theorem HeaderOnce_prologue_first_witness:
  "read_calls (HeaderOnce (CounterSource 0 1) False) (every 8) 0
     = Some [''id,name\<newline>'', ''value-0\<newline>'', []]"
proof -
  have fits: "length header \<le> every 8 0"
    by (simp add: header_def every_def)
  have "read_calls (CounterSource 0 1) (every 8) (Suc 0) = Some [''value-0\<newline>'', []]"
    by (simp add: read_calls_CounterSource every_def Sprintf_value_0)
  with HeaderOnce_prologue_first
         [where sz = "every 8" and k = 0 and r = "CounterSource 0 1", OF fits]
  show ?thesis
    by (simp add: header_def)
qed

theorem HeaderOnce_short_buffer_truncates:
  "map_option concat (read_calls (HeaderOnce (CounterSource 0 1) False) (every 7) 0)
     = Some ''id,namevalue-0''
   \<and> take (length header) ''id,namevalue-0'' \<noteq> header"
  by (simp add: HeaderOnce_first_chunk read_calls_CounterSource every_def Sprintf_value_0
      header_def)

text \<open>
  C4. The claim: for the length-preserving \<^verbatim>\<open>Uppercase\<close>, every \<^verbatim>\<open>Read\<close> call puts
  as many bytes into the caller's buffer as it read from the wrapped reader, for
  every caller buffer size. The code breaks it on a caller buffer shorter than
  the chunk read upstream. For \<^verbatim>\<open>Uppercase{r: &CounterSource{max: 1}}\<close> and a
  four-byte \<open>p\<close>: the read of the wrapped reader, into the 4096-byte buffer of
  \<^verbatim>\<open>Uppercase.Read\<close>, returns the eight bytes \<^verbatim>\<open>"value-0\n"\<close>; \<^verbatim>\<open>copy\<close> puts the four
  bytes \<^verbatim>\<open>"VALU"\<close> into \<open>p\<close>, the slice afterwards; and \<^verbatim>\<open>Read\<close> returns the count 8,
  more than \<open>p\<close> holds, so that the copy loop with a four-byte buffer panics in
  \<^verbatim>\<open>buf[0:nr]\<close>. The sibling \<^verbatim>\<open>CounterSource.Read\<close> on the same four-byte buffer
  returns \<^verbatim>\<open>copy\<close>'s count, 4.
\<close>

theorem Uppercase_short_buffer_returns_upstream_count:
  "Read (CounterSource 0 1) (make 4096)
     = Ret (CounterSource 1 1) (''value-0\<newline>'' @ make 4088) 8 None
   \<and> Read (Uppercase (CounterSource 0 1)) (make 4)
       = Ret (Uppercase (CounterSource 1 1)) ''VALU'' 8 None
   \<and> copyBuffer (Uppercase (CounterSource 0 1)) (make 4) (File []) 0 = CopyPanic
   \<and> Read (CounterSource 0 1) (make 4) = Ret (CounterSource 1 1) ''valu'' 4 None"
proof -
  have mk: "make 4 = [CHR 0x00, CHR 0x00, CHR 0x00, CHR 0x00]"
    by (simp add: make_def numeral_eq_Suc)
  have up: "Read (CounterSource 0 1) (make 4096)
      = Ret (CounterSource 1 1) (''value-0\<newline>'' @ make 4088) 8 None"
    by (simp add: Sprintf_value_0 copy_buf_def copy_n_def make_def)
  have tk: "take 8 (''value-0\<newline>'' @ make 4088) = ''value-0\<newline>''"
    by simp
  have rd: "Read (Uppercase (CounterSource 0 1)) (make 4)
      = Ret (Uppercase (CounterSource 1 1)) ''VALU'' 8 None"
    unfolding Read_Uppercase [OF up] tk
    by (simp add: ToUpper_records copy_buf_def mk)
  have loop: "copyBuffer (Uppercase (CounterSource 0 1)) (make 4) (File []) 0 = CopyPanic"
    by (subst copyBuffer.simps) (simp only: rd, simp)
  have sib: "Read (CounterSource 0 1) (make 4) = Ret (CounterSource 1 1) ''valu'' 4 None"
    by (simp add: Sprintf_value_0 copy_buf_def copy_n_def mk)
  from up rd loop sib show ?thesis by simp
qed

text \<open>
  C5. End-of-stream is sticky. Once a \<^verbatim>\<open>Read\<close> call on a reader (a
  \<^verbatim>\<open>CounterSource\<close>, or any chain of \<^verbatim>\<open>Uppercase\<close> and \<^verbatim>\<open>HeaderOnce\<close> over one) has
  returned \<^verbatim>\<open>io.EOF\<close>, every later call, with whatever buffers, returns zero bytes
  and \<^verbatim>\<open>io.EOF\<close> again, and leaves the buffer and the reader as they are.
\<close>

theorem eof_sticky:
  "Read r p = Ret r' p' n (Some EOF) \<Longrightarrow>
     reads r' qs = map (\<lambda>q. Ret r' q 0 (Some EOF)) qs"
proof (induction qs)
  case Nil
  show ?case by simp
next
  case (Cons q qs)
  from Read_eof_fixed [OF Cons.prems] have "Read r' q = Ret r' q 0 (Some EOF)" .
  with Cons show ?case by simp
qed

theorem eof_sticky_witness:
  "reads (CounterSource 3 3) [''ab'', ''c'']
     = [Ret (CounterSource 3 3) ''ab'' 0 (Some EOF), Ret (CounterSource 3 3) ''c'' 0 (Some EOF)]"
proof -
  have "Read (CounterSource 3 3) [] = Ret (CounterSource 3 3) [] 0 (Some EOF)"
    by simp
  from eof_sticky [OF this, of "[''ab'', ''c'']"] show ?thesis
    by simp
qed


text \<open>
  C9. A \<^verbatim>\<open>Read\<close> call on a \<^verbatim>\<open>HeaderOnce\<close> leaves its flag \<^verbatim>\<open>done\<close> true, whatever the
  flag was, so after the first call it is true and never false again; and every
  call after that returns exactly what one \<^verbatim>\<open>Read\<close> on the wrapped reader with the
  same buffer returns (the count, the bytes, the error), changing nothing but the
  wrapped reader.
\<close>

theorem HeaderOnce_delegates_after_first_call:
  "Read (HeaderOnce r d) p = Ret h p' n e \<Longrightarrow>
     h = HeaderOnce (upstream h) True \<and> reads h qs = map delegated (reads (upstream h) qs)"
proof -
  assume "Read (HeaderOnce r d) p = Ret h p' n e"
  then have "h = HeaderOnce (upstream h) True"
    by (auto split: if_splits outcome.splits)
  then show ?thesis
    using reads_HeaderOnce_done [of "upstream h" qs] by simp
qed

theorem HeaderOnce_delegates_after_first_call_witness:
  "reads (HeaderOnce (CounterSource 0 1) True) [make 8, make 2]
     = [Ret (HeaderOnce (CounterSource 1 1) True) ''value-0\<newline>'' 8 None,
        Ret (HeaderOnce (CounterSource 1 1) True) (make 2) 0 (Some EOF)]"
proof -
  have first: "Read (HeaderOnce (CounterSource 0 1) False) (make 8)
      = Ret (HeaderOnce (CounterSource 0 1) True) (copy_buf (make 8) header)
          (copy_n (make 8) header) None"
    by simp
  have up: "reads (CounterSource 0 1) [make 8, make 2]
      = [Ret (CounterSource 1 1) ''value-0\<newline>'' 8 None,
         Ret (CounterSource 1 1) (make 2) 0 (Some EOF)]"
    by (simp add: Sprintf_value_0 copy_buf_def copy_n_def)
  from HeaderOnce_delegates_after_first_call [OF first, of "[make 8, make 2]"] up
  show ?thesis by simp
qed



end
